theory Spec2Isabelle
  imports Complex_Main "HOL-Library.AList" "HOL-Library.List_Lexorder" "HOL-Library.Char_ord"
begin

section \<open>The graph: the part of \<open>networkx.Graph\<close> that \<open>main.py\<close> uses\<close>

text \<open>
  The exceptions the modelled code can raise: \<open>KeyError\<close> (a column missing from a CSV
  row), \<open>TypeError\<close> (\<open>float(None)\<close>, or a call with an argument the function does not
  have), \<open>ValueError\<close> (\<open>float\<close> of a string that is no number, or \<open>None\<close> given as a
  node), \<open>NetworkXError\<close> (\<open>G.neighbors\<close> of a node that is not in the graph),
  \<open>PulpError\<close> (a constraint added under a name the problem already has) and
  \<open>PulpSolverError\<close> (the solver that \<open>prob.solve()\<close> runs fails).
\<close>

datatype error = KeyError | TypeError | ValueError | NetworkXError | PulpError | PulpSolverError

text \<open>
  \<open>nx.Graph\<close> keeps a dictionary \<open>_adj\<close> from each node to the dictionary of its
  neighbours, each neighbour with the attributes of the edge; here the only attribute is
  \<open>weight\<close>. Python dictionaries keep insertion order, and \<open>G.nodes()\<close> and
  \<open>G.neighbors(n)\<close> iterate in that order, so both levels are association lists. The
  node dictionary \<open>_node\<close> has the keys of \<open>_adj\<close> in the same order (every node is
  entered into both at once) and no attributes here, so it is not a field of its own.
\<close>

record ('v, 'w) graph =
  adj :: "('v \<times> ('v \<times> 'w) list) list"

definition empty_graph :: "('v, 'w) graph" where
  \<comment> \<open>\<open>nx.Graph()\<close>\<close>
  "empty_graph = \<lparr>adj = []\<rparr>"

definition nodes :: "('v, 'w) graph \<Rightarrow> 'v list" where
  "nodes G = map fst (adj G)"

definition neighbors :: "('v, 'w) graph \<Rightarrow> 'v \<Rightarrow> error + 'v list" where
  "neighbors G n =
     (case map_of (adj G) n of
        None \<Rightarrow> Inl NetworkXError
      | Some nbrs \<Rightarrow> Inr (map fst nbrs))"

text \<open>
  The methods as the code calls them on the shared object \<open>G\<close>: each takes the graph and
  returns its value together with the graph it leaves behind.
\<close>

definition G_nodes :: "('v, 'w) graph \<Rightarrow> 'v list \<times> ('v, 'w) graph" where
  "G_nodes G = (nodes G, G)"

definition G_neighbors :: "'v \<Rightarrow> ('v, 'w) graph \<Rightarrow> (error + 'v list) \<times> ('v, 'w) graph" where
  "G_neighbors n G = (neighbors G n, G)"

definition add_node_if_absent :: "'v \<Rightarrow> ('v, 'w) graph \<Rightarrow> ('v, 'w) graph" where
  \<comment> \<open>\<open>if u not in self._node: self._adj[u] = {}; self._node[u] = {}\<close>\<close>
  "add_node_if_absent u G =
     (if u \<in> set (nodes G) then G else G\<lparr>adj := adj G @ [(u, [])]\<rparr>)"

definition set_edge :: "'v \<Rightarrow> 'v \<Rightarrow> 'w \<Rightarrow> ('v, 'w) graph \<Rightarrow> ('v, 'w) graph" where
  \<comment> \<open>\<open>self._adj[u][v] = datadict\<close>, the data being the weight\<close>
  "set_edge u v w G = G\<lparr>adj := AList.map_entry u (AList.update v w) (adj G)\<rparr>"

definition G_add_edge ::
  "'v option \<Rightarrow> 'v option \<Rightarrow> 'w \<Rightarrow> ('v, 'w) graph \<Rightarrow> (error + unit) \<times> ('v, 'w) graph" where
  \<comment> \<open>\<open>G.add_edge(u, v, weight=w)\<close>; \<open>None\<close> of the option type is Python's \<open>None\<close>\<close>
  "G_add_edge u_of_edge v_of_edge w G =
     (case u_of_edge of
        None \<Rightarrow> (Inl ValueError, G)
      | Some u \<Rightarrow>
          let G1 = add_node_if_absent u G in
          (case v_of_edge of
             None \<Rightarrow> (Inl ValueError, G1)
           | Some v \<Rightarrow>
               let G2 = add_node_if_absent v G1 in
               (Inr (), set_edge v u w (set_edge u v w G2))))"

section \<open>\<open>read_graph_from_csv\<close>\<close>

text \<open>
  A row as \<open>csv.DictReader\<close> yields it: a dictionary from column names to the field, which
  is \<open>None\<close> where the line is shorter than the header. Opening the file and splitting
  its lines is the reader's work; the model starts from the rows. \<open>float\<close> is Python's
  conversion, a parameter: \<open>None\<close> where Python raises \<open>ValueError\<close>.
\<close>

type_synonym row = "string \<rightharpoonup> string option"

definition row_args ::
  "(string \<Rightarrow> 'w option) \<Rightarrow> row \<Rightarrow> error + (string option \<times> string option \<times> 'w)" where
  \<comment> \<open>the arguments of the call, evaluated left to right:
      \<open>row['Source'], row['Target'], float(row['Weight'])\<close>\<close>
  "row_args float r =
     (case r ''Source'' of
        None \<Rightarrow> Inl KeyError
      | Some s \<Rightarrow>
          (case r ''Target'' of
             None \<Rightarrow> Inl KeyError
           | Some t \<Rightarrow>
               (case r ''Weight'' of
                  None \<Rightarrow> Inl KeyError
                | Some None \<Rightarrow> Inl TypeError
                | Some (Some ws) \<Rightarrow>
                    (case float ws of
                       None \<Rightarrow> Inl ValueError
                     | Some w \<Rightarrow> Inr (s, t, w)))))"

fun read_rows ::
  "(string \<Rightarrow> 'w option) \<Rightarrow> row list \<Rightarrow> (string, 'w) graph \<Rightarrow> error + (string, 'w) graph" where
  "read_rows float [] G = Inr G"
| "read_rows float (r # rows) G =
     (case row_args float r of
        Inl e \<Rightarrow> Inl e
      | Inr (s, t, w) \<Rightarrow>
          (case G_add_edge s t w G of
             (Inl e, _) \<Rightarrow> Inl e
           | (Inr _, G') \<Rightarrow> read_rows float rows G'))"

definition read_graph_from_csv ::
  "(string \<Rightarrow> 'w option) \<Rightarrow> row list \<Rightarrow> error + (string, 'w) graph" where
  "read_graph_from_csv float rows = read_rows float rows empty_graph"

section \<open>The integer program\<close>

text \<open>
  What the code builds with PuLP. A variable is named by its vertex
  (\<open>vertex_vars[i]\<close>); every variable is created binary (bounds 0 and 1, category
  \<open>LpBinary\<close>). An affine expression is its list of terms; the objective is minimised
  (\<open>LpMinimize\<close>) and every constraint is \<open>expression >= bound\<close>.
\<close>

type_synonym 'v lin_expr = "('v \<times> int) list"

record 'v lp_problem =
  objective :: "'v lin_expr"
  constraints :: "('v lin_expr \<times> int) list"

definition lpSum :: "'v list \<Rightarrow> 'v lin_expr" where
  "lpSum vs = map (\<lambda>v. (v, 1)) vs"

definition expr_value :: "('v \<Rightarrow> int) \<Rightarrow> 'v lin_expr \<Rightarrow> int" where
  "expr_value a e = (\<Sum>(v, c)\<leftarrow>e. c * a v)"

definition lp_vars :: "'v lp_problem \<Rightarrow> 'v list" where
  "lp_vars p = remdups (map fst (objective p) @ concat (map (\<lambda>(e, b). map fst e) (constraints p)))"

definition feasible :: "'v lp_problem \<Rightarrow> ('v \<Rightarrow> int) \<Rightarrow> bool" where
  "feasible p a \<longleftrightarrow>
     (\<forall>v \<in> set (lp_vars p). a v = 0 \<or> a v = 1) \<and>
     (\<forall>(e, b) \<in> set (constraints p). b \<le> expr_value a e)"

definition optimal :: "'v lp_problem \<Rightarrow> ('v \<Rightarrow> int) \<Rightarrow> bool" where
  "optimal p a \<longleftrightarrow>
     feasible p a \<and>
     (\<forall>a'. feasible p a' \<longrightarrow> expr_value a (objective p) \<le> expr_value a' (objective p))"

text \<open>
  \<open>prob.solve()\<close> runs PuLP's default solver, which is not code of this repository. It
  is the parameter \<open>solver\<close>: given a problem it raises (\<open>Inl\<close>) or returns the values
  of the variables. What the theorems ask of it is \<open>exact_solver\<close>: on a problem that
  has a feasible point it returns, and what it returns is an optimal point.
\<close>

type_synonym 'v solver = "'v lp_problem \<Rightarrow> error + ('v \<Rightarrow> int)"

definition exact_solver :: "'v solver \<Rightarrow> bool" where
  "exact_solver solver \<longleftrightarrow>
     (\<forall>p. (\<exists>a. feasible p a) \<longrightarrow> (\<exists>a. solver p = Inr a \<and> optimal p a))"

section \<open>\<open>find_minimum_dominating_set\<close>\<close>

text \<open>
  PuLP keeps the constraints of a problem in a dictionary under their names, and a name
  goes through its renaming first: each of the characters \<open>-+[] ->/\<close> becomes an
  underscore. The code names the constraint of node \<open>i\<close> by the text of the node,
  \<open>f"DominatingCondition_{i}"\<close>; \<open>str\<close> is Python's conversion of a node to its text, a
  parameter (the identity when the nodes are strings, as those read from a CSV file are).
\<close>

definition sanitize :: "string \<Rightarrow> string" where
  "sanitize name = map (\<lambda>c. if c \<in> set ''-+[] ->/'' then CHR ''_'' else c) name"

definition constraint_name :: "('v \<Rightarrow> string) \<Rightarrow> 'v \<Rightarrow> string" where
  "constraint_name str i = sanitize (''DominatingCondition_'' @ str i)"

text \<open>
  The loop \<open>for i in G.nodes(): prob += lpSum(...) + vertex_vars[i] >= 1, name\<close>, with
  the constraints that the problem has so far, each under its name. Adding a constraint
  under a name that is there already raises \<open>PulpError\<close>.
\<close>

fun dominating_conditions ::
  "('v \<Rightarrow> string) \<Rightarrow> 'v list \<Rightarrow> (string \<times> 'v lin_expr \<times> int) list \<Rightarrow> ('v, 'w) graph \<Rightarrow>
   (error + (string \<times> 'v lin_expr \<times> int) list) \<times> ('v, 'w) graph" where
  "dominating_conditions str [] cs G = (Inr cs, G)"
| "dominating_conditions str (i # ns) cs G =
     (case G_neighbors i G of
        (Inl e, G') \<Rightarrow> (Inl e, G')
      | (Inr js, G') \<Rightarrow>
          (let name = constraint_name str i in
           if name \<in> set (map fst cs) then (Inl PulpError, G')
           else dominating_conditions str ns (cs @ [(name, lpSum js @ [(i, 1)], 1)]) G'))"

text \<open>
  The function calls \<open>G.nodes()\<close> four times: for the keys of \<open>vertex_vars\<close>, for the
  objective, for the loop of the constraints and for the list it returns. A variable is
  identified with its vertex, so \<open>vertex_vars[j]\<close> is \<open>j\<close>: the dictionary has a key for
  every node, and in a \<open>networkx\<close> graph every neighbour is a node (\<open>graph_inv\<close> below).
  The variables are named by the text of the node too (\<open>Vertex_\<close> and the text, renamed
  alike), but two variables of one name are still two variables, and where two names
  coincide the loop has raised before the solver is called. The solver gets the
  objective and the constraints; the names play no part in their meaning. The value of a
  variable is an integer; \<open>plp.value(vertex_vars[v]) == 1\<close> selects the vertices at 1.
\<close>

definition find_minimum_dominating_set ::
  "('v \<Rightarrow> string) \<Rightarrow> 'v solver \<Rightarrow> ('v, 'w) graph \<Rightarrow> (error + 'v list) \<times> ('v, 'w) graph" where
  "find_minimum_dominating_set str solver G =
     (let (ns1, G1) = G_nodes G;
          (ns2, G2) = G_nodes G1;
          (ns3, G3) = G_nodes G2
      in case dominating_conditions str ns3 [] G3 of
           (Inl e, G4) \<Rightarrow> (Inl e, G4)
         | (Inr cs, G4) \<Rightarrow>
             let prob = \<lparr>objective = lpSum ns2, constraints = map snd cs\<rparr>
             in case solver prob of
                  Inl e \<Rightarrow> (Inl e, G4)
                | Inr val \<Rightarrow>
                    let (ns5, G5) = G_nodes G4
                    in (Inr (filter (\<lambda>v. val v = 1) ns5), G5))"

text \<open>
  A call of the function. \<open>def find_minimum_dominating_set(G)\<close> has the graph as its only
  parameter, so a call that passes a budget as well, \<open>maxNodes=n\<close>, raises \<open>TypeError\<close>
  before the body runs.
\<close>

definition call_find_minimum_dominating_set ::
  "('v \<Rightarrow> string) \<Rightarrow> 'v solver \<Rightarrow> ('v, 'w) graph \<Rightarrow> int option \<Rightarrow>
   (error + 'v list) \<times> ('v, 'w) graph" where
  "call_find_minimum_dominating_set str solver G maxNodes =
     (case maxNodes of
        Some n \<Rightarrow> (Inl TypeError, G)
      | None \<Rightarrow> find_minimum_dominating_set str solver G)"

section \<open>An exhaustive solver\<close>

text \<open>
  A solver that meets \<open>exact_solver\<close>, by trying every set of variables to put at 1; it
  is the solver of the concrete instances below. \<open>failing_solver\<close> is a solver that
  cannot run: \<open>prob.solve()\<close> raises \<open>PulpSolverError\<close> when the program it starts fails.
\<close>

definition indicator :: "'v list \<Rightarrow> 'v \<Rightarrow> int" where
  "indicator S v = (if v \<in> set S then 1 else 0)"

definition satisfies :: "'v lp_problem \<Rightarrow> 'v list \<Rightarrow> bool" where
  "satisfies p S = list_all (\<lambda>(e, b). b \<le> expr_value (indicator S) e) (constraints p)"

definition cheaper :: "'v lp_problem \<Rightarrow> 'v list \<Rightarrow> 'v list \<Rightarrow> 'v list" where
  "cheaper p S best =
     (if expr_value (indicator S) (objective p) < expr_value (indicator best) (objective p)
      then S else best)"

definition exhaustive_values :: "'v lp_problem \<Rightarrow> 'v \<Rightarrow> int" where
  "exhaustive_values p =
     (case filter (satisfies p) (subseqs (lp_vars p)) of
        [] \<Rightarrow> (\<lambda>v. 0)
      | S # Ss \<Rightarrow> indicator (fold (cheaper p) Ss S))"

definition exhaustive_solver :: "'v solver" where
  "exhaustive_solver p = Inr (exhaustive_values p)"

definition failing_solver :: "'v solver" where
  "failing_solver p = Inl PulpSolverError"

section \<open>Domination and the program of a graph\<close>

text \<open>
  The neighbours of a node as a plain list (empty for a node that is not in the graph),
  and the integer program of a graph, as \<open>find_minimum_dominating_set\<close> assembles it.
\<close>

definition nbrs :: "('v, 'w) graph \<Rightarrow> 'v \<Rightarrow> 'v list" where
  "nbrs G n = (case map_of (adj G) n of None \<Rightarrow> [] | Some nb \<Rightarrow> map fst nb)"

definition dominating_condition :: "('v, 'w) graph \<Rightarrow> 'v \<Rightarrow> 'v lin_expr \<times> int" where
  "dominating_condition G i = (lpSum (nbrs G i) @ [(i, 1)], 1)"

definition mds_problem :: "('v, 'w) graph \<Rightarrow> 'v lp_problem" where
  "mds_problem G =
     \<lparr>objective = lpSum (nodes G), constraints = map (dominating_condition G) (nodes G)\<rparr>"

text \<open>
  A set \<open>D\<close> dominates \<open>G\<close> when every vertex is in \<open>D\<close> or has a neighbour in \<open>D\<close>.
\<close>

definition dominates :: "('v, 'w) graph \<Rightarrow> 'v set \<Rightarrow> bool" where
  "dominates G D \<longleftrightarrow> (\<forall>v \<in> set (nodes G). v \<in> D \<or> (\<exists>w \<in> set (nbrs G v). w \<in> D))"

text \<open>
  The nodes of \<open>G\<close> keep distinct names under PuLP's renaming: the loop of the
  constraints then raises no \<open>PulpError\<close>.
\<close>

definition pulp_names_distinct :: "('v \<Rightarrow> string) \<Rightarrow> ('v, 'w) graph \<Rightarrow> bool" where
  "pulp_names_distinct str G \<longleftrightarrow> distinct (map (constraint_name str) (nodes G))"

text \<open>
  What \<open>networkx\<close> keeps true of every graph and the theorems rely on: a node is a key
  once, and every neighbour is a node.
\<close>

definition graph_inv :: "('v, 'w) graph \<Rightarrow> bool" where
  "graph_inv G \<longleftrightarrow>
     distinct (nodes G) \<and> (\<forall>v \<in> set (nodes G). set (nbrs G v) \<subseteq> set (nodes G))"

definition chi :: "'v set \<Rightarrow> 'v \<Rightarrow> int" where
  \<comment> \<open>the 0/1 point of a set of vertices\<close>
  "chi D v = (if v \<in> D then 1 else 0)"

text \<open>
  The least size of a dominating set, by enumeration of all the sublists of the nodes.
\<close>

definition brute_force_minimum :: "('v, 'w) graph \<Rightarrow> nat" where
  "brute_force_minimum G =
     Min (set (map length (filter (\<lambda>D. dominates G (set D)) (subseqs (nodes G)))))"

text \<open>The graph without its weights: nodes and neighbours, in their order.\<close>

definition unweighted :: "('v, 'w) graph \<Rightarrow> ('v \<times> 'v list) list" where
  "unweighted G = map (\<lambda>(u, nbrs). (u, map fst nbrs)) (adj G)"

section \<open>Concrete graphs\<close>

text \<open>
  The path \<open>A-B-C-D-E\<close>, with two weightings, an edge beside an isolated vertex, and two
  isolated vertices whose names PuLP renames alike.
\<close>

definition path5 :: "(string, int) graph" where
  "path5 = \<lparr>adj =
     [(''A'', [(''B'', 1)]), (''B'', [(''A'', 1), (''C'', 1)]), (''C'', [(''B'', 1), (''D'', 1)]),
      (''D'', [(''C'', 1), (''E'', 1)]), (''E'', [(''D'', 1)])]\<rparr>"

definition path5_heavy :: "(string, int) graph" where
  "path5_heavy = \<lparr>adj =
     [(''A'', [(''B'', 7)]), (''B'', [(''A'', 7), (''C'', 2)]), (''C'', [(''B'', 2), (''D'', 9)]),
      (''D'', [(''C'', 9), (''E'', 4)]), (''E'', [(''D'', 4)])]\<rparr>"

definition edge_and_isolated :: "(string, int) graph" where
  "edge_and_isolated = \<lparr>adj = [(''A'', [(''B'', 1)]), (''B'', [(''A'', 1)]), (''C'', [])]\<rparr>"

definition colliding_names :: "(string, int) graph" where
  "colliding_names = \<lparr>adj = [(''a-b'', []), (''a_b'', [])]\<rparr>"

section \<open>Rows and edges\<close>

text \<open>
  A row with its three fields present. \<open>float_digits\<close> stands for \<open>float\<close> in the
  concrete inputs below, whose weights are \<open>1\<close> and \<open>2\<close>: on a string of decimal digits
  that writes a number below \<open>2 ^ 53\<close> it gives the number, as \<open>float\<close> does. It is not
  \<open>float\<close> elsewhere (\<open>float\<close> rounds larger numbers and reads signs, fractions and
  exponents), and nothing is stated of it there: the theorems are about any \<open>float\<close>.
\<close>

definition csv_row :: "string \<Rightarrow> string \<Rightarrow> string \<Rightarrow> row" where
  "csv_row s t w = [''Source'' \<mapsto> Some s, ''Target'' \<mapsto> Some t, ''Weight'' \<mapsto> Some w]"

definition float_digits :: "string \<Rightarrow> int option" where
  "float_digits s =
     (if s \<noteq> [] \<and> list_all (\<lambda>c. c \<in> set ''0123456789'') s
      then Some (fold (\<lambda>c n. 10 * n + (of_char c - 48)) s 0)
      else None)"

text \<open>
  The graph that \<open>G.add_edge(u, v, weight=w)\<close> leaves when neither end is \<open>None\<close>.
\<close>

definition add_edge :: "'v \<Rightarrow> 'v \<Rightarrow> 'w \<Rightarrow> ('v, 'w) graph \<Rightarrow> ('v, 'w) graph" where
  "add_edge u v w G = set_edge v u w (set_edge u v w (add_node_if_absent v (add_node_if_absent u G)))"

section \<open>Paths\<close>

text \<open>
  A path: the vertices in a row \<open>vs\<close>, each adjacent to the one before and the one after
  and to nothing else. \<open>path_dominators\<close> takes every third vertex from the second one,
  and the last vertex where that runs past the end.
\<close>

definition path_neighbours :: "'v list \<Rightarrow> nat \<Rightarrow> 'v list" where
  "path_neighbours vs i =
     (if 0 < i then [vs ! (i - 1)] else []) @ (if Suc i < length vs then [vs ! Suc i] else [])"

definition is_path :: "('v, 'w) graph \<Rightarrow> 'v list \<Rightarrow> bool" where
  "is_path G vs \<longleftrightarrow>
     distinct vs \<and> set vs = set (nodes G) \<and>
     (\<forall>i < length vs. set (nbrs G (vs ! i)) = set (path_neighbours vs i))"

definition path_dominators :: "'v list \<Rightarrow> 'v set" where
  "path_dominators vs = (\<lambda>k. vs ! min (3 * k + 1) (length vs - 1)) ` {0..<(length vs + 2) div 3}"

section \<open>The greedy upper bound of the spec\<close>

text \<open>An undirected graph: each vertex is a neighbour of its neighbours.\<close>

definition undirected :: "('v, 'w) graph \<Rightarrow> bool" where
  "undirected G \<longleftrightarrow> (\<forall>u \<in> set (nodes G). \<forall>v \<in> set (nbrs G u). u \<in> set (nbrs G v))"

text \<open>
  Modelled from the spec: the greedy upper bound of its Bounding Engine (section 4.2),
  which the code does not have. The vertices are taken in their stable total order (the
  order of the identifiers, \<open>vs\<close> below being the sorted vertices). Each round selects
  the vertex whose closed neighbourhood covers the most vertices that are not dominated
  yet, the least such vertex where several tie, and the rounds end when every vertex is
  dominated. A round dominates at least one more vertex, so there are at most as many
  rounds as vertices.
\<close>

definition closedNeighborhood :: "('v, 'w) graph \<Rightarrow> 'v \<Rightarrow> 'v list" where
  "closedNeighborhood G v = v # nbrs G v"

definition coverage :: "('v, 'w) graph \<Rightarrow> 'v list \<Rightarrow> 'v \<Rightarrow> nat" where
  "coverage G U v = length (filter (\<lambda>u. u \<in> set (closedNeighborhood G v)) U)"

definition greedy_choice :: "('v, 'w) graph \<Rightarrow> 'v list \<Rightarrow> 'v \<Rightarrow> 'v list \<Rightarrow> 'v" where
  "greedy_choice G U v0 vs =
     fold (\<lambda>v best. if coverage G U best < coverage G U v then v else best) vs v0"

fun greedy_rounds :: "nat \<Rightarrow> ('v, 'w) graph \<Rightarrow> 'v list \<Rightarrow> 'v list \<Rightarrow> 'v list" where
  "greedy_rounds 0 G vs U = []"
| "greedy_rounds (Suc k) G vs U =
     (case (U, vs) of
        ([], _) \<Rightarrow> []
      | (_, []) \<Rightarrow> []
      | (_, v0 # vs') \<Rightarrow>
          let v = greedy_choice G U v0 vs'
          in v # greedy_rounds k G vs (filter (\<lambda>u. u \<notin> set (closedNeighborhood G v)) U))"

definition greedy_upper_bound :: "('v :: linorder, 'w) graph \<Rightarrow> 'v list" where
  "greedy_upper_bound G =
     (let vs = sort (nodes G) in greedy_rounds (length vs) G vs vs)"

text \<open>The tree with the edges \<open>A-B\<close>, \<open>A-C\<close>, \<open>B-D\<close> and \<open>C-E\<close>.\<close>

definition spider :: "(string, int) graph" where
  "spider = \<lparr>adj =
     [(''A'', [(''B'', 1), (''C'', 1)]), (''B'', [(''A'', 1), (''D'', 1)]),
      (''C'', [(''A'', 1), (''E'', 1)]), (''D'', [(''B'', 1)]), (''E'', [(''C'', 1)])]\<rparr>"



text \<open>What \<open>AList.update\<close> does to the keys of a neighbour dictionary.\<close>

definition insert_key :: "'v \<Rightarrow> 'v list \<Rightarrow> 'v list" where
  "insert_key v ns = (if v \<in> set ns then ns else ns @ [v])"

section \<open>The solver's call, unfolded\<close>

lemma neighbors_nodes: "i \<in> set (nodes G) \<Longrightarrow> neighbors G i = Inr (nbrs G i)"
  by (auto simp: nodes_def neighbors_def nbrs_def map_of_eq_None_iff split: option.splits)

lemma dominating_conditions_eq:
  "set ns \<subseteq> set (nodes G) \<Longrightarrow>
   dominating_conditions str ns cs G =
     (if distinct (map (constraint_name str) ns) \<and>
         set (map (constraint_name str) ns) \<inter> fst ` set cs = {}
      then Inr (cs @ map (\<lambda>i. (constraint_name str i, dominating_condition G i)) ns)
      else Inl PulpError, G)"
proof (induction ns arbitrary: cs)
  case Nil
  then show ?case by simp
next
  case (Cons i ns)
  from Cons.prems have i: "G_neighbors i G = (Inr (nbrs G i), G)" and ns: "set ns \<subseteq> set (nodes G)"
    by (simp_all add: G_neighbors_def neighbors_nodes)
  show ?case
  proof (cases "constraint_name str i \<in> fst ` set cs")
    case True
    then show ?thesis by (auto simp: i)
  next
    case False
    let ?c = "(constraint_name str i, lpSum (nbrs G i) @ [(i, 1)], 1)"
    from False have "dominating_conditions str (i # ns) cs G =
        dominating_conditions str ns (cs @ [?c]) G"
      by (simp add: i Let_def)
    also have "\<dots> =
       (if distinct (map (constraint_name str) ns) \<and>
           set (map (constraint_name str) ns) \<inter> fst ` set (cs @ [?c]) = {}
        then Inr ((cs @ [?c]) @ map (\<lambda>i. (constraint_name str i, dominating_condition G i)) ns)
        else Inl PulpError, G)"
      by (rule Cons.IH[OF ns])
    also have "\<dots> =
       (if distinct (map (constraint_name str) (i # ns)) \<and>
           set (map (constraint_name str) (i # ns)) \<inter> fst ` set cs = {}
        then Inr (cs @ map (\<lambda>i. (constraint_name str i, dominating_condition G i)) (i # ns))
        else Inl PulpError, G)"
      using False by (auto simp: dominating_condition_def)
    finally show ?thesis .
  qed
qed

lemma find_minimum_dominating_set_eq:
  "find_minimum_dominating_set str solver G =
     (if pulp_names_distinct str G
      then (case solver (mds_problem G) of
              Inl e \<Rightarrow> Inl e
            | Inr a \<Rightarrow> Inr (filter (\<lambda>v. a v = 1) (nodes G)))
      else Inl PulpError, G)"
  by (simp add: find_minimum_dominating_set_def G_nodes_def dominating_conditions_eq
      mds_problem_def pulp_names_distinct_def comp_def split: sum.splits)

section \<open>The integer program and domination\<close>

lemma expr_value_append: "expr_value a (e1 @ e2) = expr_value a e1 + expr_value a e2"
  by (simp add: expr_value_def)

lemma expr_value_lpSum: "expr_value a (lpSum vs) = sum_list (map a vs)"
  by (induction vs) (simp_all add: expr_value_def lpSum_def)

lemma expr_value_single: "expr_value a [(i, 1)] = a i"
  by (simp add: expr_value_def)

lemma expr_value_cong:
  "(\<And>v. v \<in> fst ` set e \<Longrightarrow> a v = a' v) \<Longrightarrow> expr_value a e = expr_value a' e"
  unfolding expr_value_def by (induction e) auto

lemma binary_sum_pos:
  "\<forall>v \<in> set vs. a v = 0 \<or> a v = (1::int) \<Longrightarrow> 1 \<le> sum_list (map a vs) \<Longrightarrow> \<exists>v \<in> set vs. a v = 1"
  by (induction vs) auto

lemma binary_sum_count:
  "\<forall>v \<in> set vs. a v = 0 \<or> a v = (1::int) \<Longrightarrow>
   sum_list (map a vs) = int (length (filter (\<lambda>v. a v = 1) vs))"
  by (induction vs) auto

lemma set_lp_vars_mds:
  "set (lp_vars (mds_problem G)) = set (nodes G) \<union> (\<Union>v \<in> set (nodes G). set (nbrs G v))"
  by (auto simp: lp_vars_def mds_problem_def dominating_condition_def lpSum_def image_iff)

lemma feasible_mds_iff:
  "feasible (mds_problem G) a \<longleftrightarrow>
     (\<forall>v \<in> set (lp_vars (mds_problem G)). a v = 0 \<or> a v = 1) \<and>
     (\<forall>v \<in> set (nodes G). 1 \<le> sum_list (map a (nbrs G v)) + a v)"
  by (simp add: feasible_def mds_problem_def dominating_condition_def expr_value_append expr_value_lpSum expr_value_single)

lemma sum_list_map_nonneg: "\<forall>v \<in> set vs. 0 \<le> a v \<Longrightarrow> (0::int) \<le> sum_list (map a vs)"
  by (induction vs) auto

lemma all_ones_feasible: "feasible (mds_problem G) (\<lambda>v. 1)"
proof -
  have "(0::int) \<le> sum_list (map (\<lambda>v. 1) vs)" for vs :: "'a list"
    by (rule sum_list_map_nonneg) simp
  then show ?thesis
    by (simp add: feasible_mds_iff)
qed

lemma objective_mds: "expr_value a (objective (mds_problem G)) = sum_list (map a (nodes G))"
  by (simp add: mds_problem_def expr_value_lpSum)

lemma feasible_dominates:
  assumes "feasible (mds_problem G) a" and "graph_inv G"
  shows "dominates G (set (filter (\<lambda>v. a v = 1) (nodes G)))"
  unfolding dominates_def
proof
  fix v assume v: "v \<in> set (nodes G)"
  let ?vs = "nbrs G v @ [v]"
  from assms(1) v have bin: "\<forall>u \<in> set ?vs. a u = 0 \<or> a u = 1"
    and ge: "1 \<le> sum_list (map a ?vs)"
    by (auto simp: feasible_mds_iff set_lp_vars_mds)
  from binary_sum_pos[OF bin ge] obtain u where u: "u \<in> set ?vs" "a u = 1"
    by blast
  from u(1) v assms(2) have "u \<in> set (nodes G)"
    by (auto simp: graph_inv_def)
  with u show "v \<in> set (filter (\<lambda>v. a v = 1) (nodes G)) \<or>
      (\<exists>w \<in> set (nbrs G v). w \<in> set (filter (\<lambda>v. a v = 1) (nodes G)))"
    by auto
qed

lemma sum_list_nonneg_mem:
  "\<forall>v \<in> set vs. 0 \<le> a v \<Longrightarrow> w \<in> set vs \<Longrightarrow> (a w :: int) \<le> sum_list (map a vs)"
proof (induction vs)
  case Nil
  then show ?case by simp
next
  case (Cons x xs)
  from Cons.prems have "0 \<le> sum_list (map a xs)" "0 \<le> a x"
    by (simp_all add: sum_list_map_nonneg)
  with Cons show ?case by auto
qed

lemma dominates_feasible:
  assumes "dominates G D"
  shows "feasible (mds_problem G) (chi D)"
  unfolding feasible_mds_iff
proof (intro conjI ballI)
  fix v assume "v \<in> set (lp_vars (mds_problem G))"
  show "chi D v = 0 \<or> chi D v = 1" by (simp add: chi_def)
next
  fix v assume v: "v \<in> set (nodes G)"
  have nonneg: "0 \<le> sum_list (map (chi D) (nbrs G v))"
    by (rule sum_list_map_nonneg) (simp add: chi_def)
  from assms v consider "v \<in> D" | w where "w \<in> set (nbrs G v)" "w \<in> D"
    unfolding dominates_def by blast
  then show "1 \<le> sum_list (map (chi D) (nbrs G v)) + chi D v"
  proof cases
    case 1
    then have "chi D v = 1" by (simp add: chi_def)
    with nonneg show ?thesis by simp
  next
    case 2
    have "chi D w \<le> sum_list (map (chi D) (nbrs G v))"
      by (rule sum_list_nonneg_mem) (simp_all add: chi_def 2)
    moreover have "chi D w = 1" "0 \<le> chi D v" using 2 by (simp_all add: chi_def)
    ultimately show ?thesis by simp
  qed
qed

lemma objective_chi:
  assumes "distinct vs" and "finite D"
  shows "sum_list (map (chi D) vs) \<le> int (card D)"
proof -
  have "sum_list (map (chi D) vs) = int (length (filter (\<lambda>v. chi D v = 1) vs))"
    by (rule binary_sum_count) (simp add: chi_def)
  also have "filter (\<lambda>v. chi D v = 1) vs = filter (\<lambda>v. v \<in> D) vs"
    by (simp add: chi_def)
  also have "length (filter (\<lambda>v. v \<in> D) vs) = card (set (filter (\<lambda>v. v \<in> D) vs))"
    using assms(1) distinct_card[of "filter (\<lambda>v. v \<in> D) vs"] by simp
  also have "\<dots> \<le> card D"
    using assms(2) by (intro card_mono) auto
  finally show ?thesis by simp
qed

section \<open>The exhaustive solver is exact\<close>

lemma filter_in_subseqs: "filter P xs \<in> set (subseqs xs)"
  by (induction xs) (auto simp: Let_def)

lemma fold_cheaper_mem: "fold (cheaper p) Ss S \<in> set (S # Ss)"
  by (induction Ss arbitrary: S) (auto simp: cheaper_def)

lemma fold_cheaper_le_start:
  "expr_value (indicator (fold (cheaper p) Ss S)) (objective p) \<le> expr_value (indicator S) (objective p)"
proof (induction Ss arbitrary: S)
  case Nil
  then show ?case by simp
next
  case (Cons T Ts)
  have "expr_value (indicator (cheaper p T S)) (objective p) \<le> expr_value (indicator S) (objective p)"
    by (simp add: cheaper_def)
  with Cons[of "cheaper p T S"] show ?case by simp
qed

lemma fold_cheaper_le:
  "T \<in> set (S # Ss) \<Longrightarrow>
   expr_value (indicator (fold (cheaper p) Ss S)) (objective p) \<le> expr_value (indicator T) (objective p)"
proof (induction Ss arbitrary: S)
  case Nil
  then show ?case by simp
next
  case (Cons U Us)
  show ?case
  proof (cases "T \<in> set (cheaper p U S # Us)")
    case True
    with Cons.IH[of "cheaper p U S"] show ?thesis by simp
  next
    case False
    with Cons.prems have other: "expr_value (indicator (cheaper p U S)) (objective p) \<le> expr_value (indicator T) (objective p)"
      by (auto simp: cheaper_def split: if_splits)
    have "expr_value (indicator (fold (cheaper p) Us (cheaper p U S))) (objective p)
          \<le> expr_value (indicator (cheaper p U S)) (objective p)"
      by (rule fold_cheaper_le_start)
    with other show ?thesis by simp
  qed
qed

lemma objective_vars: "fst ` set (objective p) \<subseteq> set (lp_vars p)"
  by (auto simp: lp_vars_def)

lemma constraint_vars: "(e, b) \<in> set (constraints p) \<Longrightarrow> fst ` set e \<subseteq> set (lp_vars p)"
  by (force simp: lp_vars_def)

lemma satisfies_feasible: "satisfies p S \<Longrightarrow> feasible p (indicator S)"
  by (auto simp: satisfies_def feasible_def indicator_def list_all_iff)

lemma feasible_satisfies:
  assumes "feasible p a"
  defines "S \<equiv> filter (\<lambda>v. a v = 1) (lp_vars p)"
  shows "satisfies p S"
    and "expr_value (indicator S) (objective p) = expr_value a (objective p)"
proof -
  have agree: "indicator S v = a v" if "v \<in> set (lp_vars p)" for v
    using assms(1) that by (auto simp: feasible_def indicator_def S_def)
  show "expr_value (indicator S) (objective p) = expr_value a (objective p)"
    using objective_vars[of p] by (intro expr_value_cong agree) auto
  have "expr_value (indicator S) e = expr_value a e" if "(e, b) \<in> set (constraints p)" for e b
    using constraint_vars[OF that] by (intro expr_value_cong agree) auto
  with assms(1) show "satisfies p S"
    by (auto simp: satisfies_def feasible_def list_all_iff)
qed

lemma exhaustive_values_optimal:
  assumes "feasible p a0"
  shows "optimal p (exhaustive_values p)"
proof -
  let ?cands = "filter (satisfies p) (subseqs (lp_vars p))"
  have in_cands: "filter (\<lambda>v. a v = 1) (lp_vars p) \<in> set ?cands" if "feasible p a" for a
    using feasible_satisfies(1)[OF that] by (simp add: filter_in_subseqs)
  from in_cands[OF assms] obtain S Ss where cands: "?cands = S # Ss"
    by (cases ?cands) auto
  let ?best = "fold (cheaper p) Ss S"
  have sol: "exhaustive_values p = indicator ?best"
    by (simp add: exhaustive_values_def cands)
  have "?best \<in> set ?cands"
    using fold_cheaper_mem[of p Ss S] by (simp only: cands)
  then have feas: "feasible p (indicator ?best)"
    by (simp add: satisfies_feasible)
  have "expr_value (indicator ?best) (objective p) \<le> expr_value a (objective p)"
    if "feasible p a" for a
  proof -
    let ?T = "filter (\<lambda>v. a v = 1) (lp_vars p)"
    have "?T \<in> set (S # Ss)"
      using in_cands[OF that] by (simp only: cands)
    from fold_cheaper_le[OF this, of p]
    show ?thesis by (simp add: feasible_satisfies(2)[OF that])
  qed
  with feas show ?thesis
    by (simp add: optimal_def sol)
qed

lemma exhaustive_solver_exact: "exact_solver exhaustive_solver"
  unfolding exact_solver_def exhaustive_solver_def
  using exhaustive_values_optimal by blast

section \<open>The returned list\<close>

lemma exact_solver_mds:
  assumes "exact_solver solver"
  obtains a where "solver (mds_problem G) = Inr a" and "optimal (mds_problem G) a"
  using assms all_ones_feasible[of G] unfolding exact_solver_def by blast

lemma returns_iff_names_distinct:
  assumes "exact_solver solver"
  shows "(\<exists>S. fst (find_minimum_dominating_set str solver G) = Inr S) \<longleftrightarrow>
         pulp_names_distinct str G"
proof -
  from exact_solver_mds[OF assms] obtain a where "solver (mds_problem G) = Inr a"
    by blast
  then show ?thesis
    by (simp add: find_minimum_dominating_set_eq)
qed

lemma returned_list_optimal:
  assumes "exact_solver solver" and "fst (find_minimum_dominating_set str solver G) = Inr S"
  obtains a where "optimal (mds_problem G) a" and "S = filter (\<lambda>v. a v = 1) (nodes G)"
proof -
  from exact_solver_mds[OF assms(1)] obtain a
    where a: "solver (mds_problem G) = Inr a" "optimal (mds_problem G) a"
    by blast
  from assms(2) a(1) have "S = filter (\<lambda>v. a v = 1) (nodes G)"
    by (simp add: find_minimum_dominating_set_eq split: if_splits)
  with a(2) that show thesis
    by blast
qed

lemma names_collide_raises:
  "\<not> pulp_names_distinct str G \<Longrightarrow>
   fst (find_minimum_dominating_set str solver G) = Inl PulpError"
  by (simp add: find_minimum_dominating_set_eq)

lemma optimal_binary_nodes:
  "optimal (mds_problem G) a \<Longrightarrow> \<forall>v \<in> set (nodes G). a v = 0 \<or> a v = 1"
  by (simp add: optimal_def feasible_mds_iff set_lp_vars_mds)

lemma optimal_dominates:
  "optimal (mds_problem G) a \<Longrightarrow> graph_inv G \<Longrightarrow>
   dominates G (set (filter (\<lambda>v. a v = 1) (nodes G)))"
  by (rule feasible_dominates) (simp_all add: optimal_def)

lemma optimal_le_dominating:
  assumes "optimal (mds_problem G) a" and "graph_inv G" and "finite D" and "dominates G D"
  shows "length (filter (\<lambda>v. a v = 1) (nodes G)) \<le> card D"
proof -
  have "int (length (filter (\<lambda>v. a v = 1) (nodes G))) = sum_list (map a (nodes G))"
    using binary_sum_count[OF optimal_binary_nodes[OF assms(1)]] by simp
  also have "\<dots> \<le> sum_list (map (chi D) (nodes G))"
    using assms(1) dominates_feasible[OF assms(4)]
    by (simp add: optimal_def objective_mds)
  also have "\<dots> \<le> int (card D)"
    using assms(2,3) by (intro objective_chi) (simp_all add: graph_inv_def)
  finally show ?thesis by simp
qed

lemma optimal_brute_force:
  assumes "optimal (mds_problem G) a" and "graph_inv G"
  shows "length (filter (\<lambda>v. a v = 1) (nodes G)) = brute_force_minimum G"
proof -
  let ?S = "filter (\<lambda>v. a v = 1) (nodes G)"
  let ?A = "set (map length (filter (\<lambda>D. dominates G (set D)) (subseqs (nodes G))))"
  have dom: "dominates G (set ?S)"
    by (rule optimal_dominates[OF assms])
  have "?S \<in> set (filter (\<lambda>D. dominates G (set D)) (subseqs (nodes G)))"
    using dom filter_in_subseqs[of "\<lambda>v. a v = 1" "nodes G"]
    by simp
  then have "length ?S \<in> length ` set (filter (\<lambda>D. dominates G (set D)) (subseqs (nodes G)))"
    by (rule imageI)
  then have mem: "length ?S \<in> ?A"
    by simp
  have le: "length ?S \<le> y" if "y \<in> ?A" for y
  proof -
    from that obtain D where D: "dominates G (set D)" "y = length D" by auto
    have "length ?S \<le> card (set D)"
      by (rule optimal_le_dominating[OF assms _ D(1)]) simp
    also have "\<dots> \<le> length D" by (rule card_length)
    finally show ?thesis by (simp add: D(2))
  qed
  have "Min ?A = length ?S"
    by (rule Min_eqI) (use mem le in auto)
  then show ?thesis by (simp add: brute_force_minimum_def)
qed

lemma graph_inv_path5: "graph_inv path5"
  by (auto simp: graph_inv_def path5_def nodes_def nbrs_def)

lemma names_path5: "pulp_names_distinct id path5"
  by (simp add: pulp_names_distinct_def constraint_name_def sanitize_def path5_def nodes_def)

lemma graph_inv_edge_and_isolated: "graph_inv edge_and_isolated"
  by (auto simp: graph_inv_def edge_and_isolated_def nodes_def nbrs_def)

lemma names_edge_and_isolated: "pulp_names_distinct id edge_and_isolated"
  by (simp add: pulp_names_distinct_def constraint_name_def sanitize_def edge_and_isolated_def
      nodes_def)

text \<open>
  Two isolated vertices \<open>a-b\<close> and \<open>a_b\<close>: the graph is as \<open>networkx\<close> keeps it, the
  two constraints get one name, and the call raises.
\<close>

lemma colliding_names_raise:
  "graph_inv colliding_names \<and>
   fst (find_minimum_dominating_set id solver colliding_names) = Inl PulpError"
proof -
  have "graph_inv colliding_names"
    by (auto simp: graph_inv_def colliding_names_def nodes_def nbrs_def)
  moreover have "\<not> pulp_names_distinct id colliding_names"
    by (simp add: pulp_names_distinct_def constraint_name_def sanitize_def colliding_names_def
        nodes_def)
  ultimately show ?thesis
    by (simp add: names_collide_raises)
qed

text \<open>
  C1: with an exact solver, the call returns a list exactly when the names that PuLP
  gives the nodes are distinct, and every list that \<open>find_minimum_dominating_set\<close>
  returns is a dominating set of minimum cardinality: no dominating set of the graph has
  fewer vertices, and its size is the minimum that enumerating all subsets of the
  vertices finds (for a graph of any size, so also for those of at most 12 vertices).
\<close>

theorem minimum_dominating_set:
  assumes "exact_solver solver" and "graph_inv G"
  shows "((\<exists>S. fst (find_minimum_dominating_set str solver G) = Inr S) \<longleftrightarrow>
            pulp_names_distinct str G) \<and>
         (\<forall>S. fst (find_minimum_dominating_set str solver G) = Inr S \<longrightarrow>
            dominates G (set S) \<and>
            (\<forall>D. finite D \<and> dominates G D \<longrightarrow> length S \<le> card D) \<and>
            length S = brute_force_minimum G)"
proof (intro conjI allI impI)
  show "(\<exists>S. fst (find_minimum_dominating_set str solver G) = Inr S) \<longleftrightarrow>
      pulp_names_distinct str G"
    by (rule returns_iff_names_distinct[OF assms(1)])
next
  fix S assume "fst (find_minimum_dominating_set str solver G) = Inr S"
  from returned_list_optimal[OF assms(1) this] obtain a
    where a: "optimal (mds_problem G) a" and S: "S = filter (\<lambda>v. a v = 1) (nodes G)"
    by blast
  show "dominates G (set S)"
    unfolding S by (rule optimal_dominates[OF a assms(2)])
  show "length S = brute_force_minimum G"
    unfolding S by (rule optimal_brute_force[OF a assms(2)])
  fix D :: "'a set" assume "finite D \<and> dominates G D"
  then show "length S \<le> card D"
    unfolding S using optimal_le_dominating[OF a assms(2)] by blast
qed

theorem minimum_dominating_set_witness:
  "exact_solver (exhaustive_solver :: string solver) \<and> graph_inv path5 \<and>
   pulp_names_distinct id path5 \<and>
   (\<exists>S. fst (find_minimum_dominating_set id exhaustive_solver path5) = Inr S \<and>
        dominates path5 (set S) \<and>
        (\<forall>D. finite D \<and> dominates path5 D \<longrightarrow> length S \<le> card D) \<and>
        length S = brute_force_minimum path5)"
  using minimum_dominating_set[OF exhaustive_solver_exact graph_inv_path5, of id]
    exhaustive_solver_exact[where ?'a = string] graph_inv_path5 names_path5
  by blast

text \<open>
  C2: with an exact solver, every list that the call returns is a dominating set: every
  vertex of the graph is in it or has a neighbour in it. The call returns a list exactly
  when the names that PuLP gives the nodes are distinct.
\<close>

theorem returned_set_dominates:
  assumes "exact_solver solver" and "graph_inv G"
  shows "((\<exists>S. fst (find_minimum_dominating_set str solver G) = Inr S) \<longleftrightarrow>
            pulp_names_distinct str G) \<and>
         (\<forall>S. fst (find_minimum_dominating_set str solver G) = Inr S \<longrightarrow>
            (\<forall>v \<in> set (nodes G). v \<in> set S \<or> (\<exists>w \<in> set (nbrs G v). w \<in> set S)))"
proof (intro conjI allI impI)
  show "(\<exists>S. fst (find_minimum_dominating_set str solver G) = Inr S) \<longleftrightarrow>
      pulp_names_distinct str G"
    by (rule returns_iff_names_distinct[OF assms(1)])
next
  fix S assume "fst (find_minimum_dominating_set str solver G) = Inr S"
  from returned_list_optimal[OF assms(1) this] obtain a
    where a: "optimal (mds_problem G) a" and S: "S = filter (\<lambda>v. a v = 1) (nodes G)"
    by blast
  from optimal_dominates[OF a assms(2)]
  show "\<forall>v \<in> set (nodes G). v \<in> set S \<or> (\<exists>w \<in> set (nbrs G v). w \<in> set S)"
    unfolding S dominates_def .
qed

theorem returned_set_dominates_witness:
  "exact_solver (exhaustive_solver :: string solver) \<and> graph_inv edge_and_isolated \<and>
   pulp_names_distinct id edge_and_isolated \<and>
   (\<exists>S. fst (find_minimum_dominating_set id exhaustive_solver edge_and_isolated) = Inr S \<and>
      (\<forall>v \<in> set (nodes edge_and_isolated).
          v \<in> set S \<or> (\<exists>w \<in> set (nbrs edge_and_isolated v). w \<in> set S)))"
  using returned_set_dominates[OF exhaustive_solver_exact graph_inv_edge_and_isolated, of id]
    exhaustive_solver_exact[where ?'a = string] graph_inv_edge_and_isolated
    names_edge_and_isolated
  by blast

lemma nodes_unweighted: "nodes G = map fst (unweighted G)"
  by (simp add: nodes_def unweighted_def case_prod_unfold comp_def)

lemma nbrs_unweighted:
  "nbrs G n = (case map_of (unweighted G) n of None \<Rightarrow> [] | Some ns \<Rightarrow> ns)"
proof -
  have "map_of (map (\<lambda>(u, nb). (u, map fst nb)) xs) n = map_option (map fst) (map_of xs n)"
    for xs :: "('a \<times> ('a \<times> 'b) list) list"
    by (induction xs) auto
  then show ?thesis
    by (simp add: nbrs_def unweighted_def split: option.splits)
qed

lemma mds_problem_unweighted:
  "unweighted G1 = unweighted G2 \<Longrightarrow> mds_problem G1 = mds_problem G2"
  by (simp add: mds_problem_def dominating_condition_def nodes_unweighted nbrs_unweighted)

text \<open>
  C3: two graphs with the same nodes and the same neighbours, in the same order, that
  differ only in the weights of their edges get the same outcome, whatever the solver:
  neither the integer program nor the names mention the weights.
\<close>

theorem weights_do_not_interfere:
  "unweighted G1 = unweighted G2 \<Longrightarrow>
   fst (find_minimum_dominating_set str solver G1) =
   fst (find_minimum_dominating_set str solver G2)"
proof -
  assume u: "unweighted G1 = unweighted G2"
  have n: "nodes G1 = nodes G2"
    by (simp add: nodes_unweighted u)
  have p: "mds_problem G1 = mds_problem G2"
    by (rule mds_problem_unweighted[OF u])
  show ?thesis
    unfolding find_minimum_dominating_set_eq pulp_names_distinct_def n p by simp
qed

theorem weights_do_not_interfere_witness:
  "unweighted path5 = unweighted path5_heavy \<and> path5 \<noteq> path5_heavy \<and>
   fst (find_minimum_dominating_set id exhaustive_solver path5) =
   fst (find_minimum_dominating_set id exhaustive_solver path5_heavy)"
proof -
  have u: "unweighted path5 = unweighted path5_heavy"
    by (simp add: unweighted_def path5_def path5_heavy_def)
  have "path5 \<noteq> path5_heavy"
    by (simp add: path5_def path5_heavy_def)
  with u weights_do_not_interfere[OF u, of id exhaustive_solver]
  show ?thesis by simp
qed

text \<open>
  C5, as the code has it: on the graph with no vertex the function does not return at
  once. It builds the program, which is empty, and calls the solver as on any graph:
  where the solver raises, so does the call, and where it returns, the call returns the
  empty list. With an exact solver that is the outcome. The list is all that is
  returned; no flag comes with it.
\<close>

theorem empty_graph_calls_solver:
  "nodes G = [] \<Longrightarrow>
   fst (find_minimum_dominating_set str solver G) =
     (case solver \<lparr>objective = [], constraints = []\<rparr> of
        Inl e \<Rightarrow> Inl e
      | Inr a \<Rightarrow> Inr []) \<and>
   (exact_solver solver \<longrightarrow> fst (find_minimum_dominating_set str solver G) = Inr [])"
proof -
  assume n: "nodes G = []"
  then have p: "mds_problem G = \<lparr>objective = [], constraints = []\<rparr>"
    by (simp add: mds_problem_def lpSum_def)
  have first: "fst (find_minimum_dominating_set str solver G) =
     (case solver \<lparr>objective = [], constraints = []\<rparr> of
        Inl e \<Rightarrow> Inl e
      | Inr a \<Rightarrow> Inr [])"
    by (simp add: find_minimum_dominating_set_eq pulp_names_distinct_def n p split: sum.splits)
  have "fst (find_minimum_dominating_set str solver G) = Inr []" if "exact_solver solver"
  proof -
    from exact_solver_mds[OF that, of G] obtain a where "solver (mds_problem G) = Inr a"
      by blast
    with first show ?thesis by (simp add: p)
  qed
  with first show ?thesis by blast
qed

text \<open>
  On the graph with no vertex, with a solver that cannot run, the call raises: it has
  called the solver.
\<close>

theorem empty_graph_returns_at_once_counterexample:
  "fst (find_minimum_dominating_set id (failing_solver :: string solver)
          (empty_graph :: (string, int) graph)) = Inl PulpSolverError"
  by (simp add: find_minimum_dominating_set_eq pulp_names_distinct_def failing_solver_def
      empty_graph_def nodes_def)

theorem empty_graph_calls_solver_witness:
  "nodes (empty_graph :: (string, int) graph) = [] \<and>
   exact_solver (exhaustive_solver :: string solver) \<and>
   fst (find_minimum_dominating_set id exhaustive_solver (empty_graph :: (string, int) graph)) =
     Inr []"
proof -
  have n: "nodes (empty_graph :: (string, int) graph) = []"
    by (simp add: nodes_def empty_graph_def)
  from empty_graph_calls_solver[OF n, of id exhaustive_solver] n
    exhaustive_solver_exact[where ?'a = string]
  show ?thesis by blast
qed

text \<open>
  C6: with an exact solver, a vertex that has no neighbour is in every list that the
  call returns. The call returns a list exactly when the names that PuLP gives the nodes
  are distinct.
\<close>

theorem isolated_vertex_selected:
  assumes "exact_solver solver" and "graph_inv G" and "v \<in> set (nodes G)" and "nbrs G v = []"
  shows "((\<exists>S. fst (find_minimum_dominating_set str solver G) = Inr S) \<longleftrightarrow>
            pulp_names_distinct str G) \<and>
         (\<forall>S. fst (find_minimum_dominating_set str solver G) = Inr S \<longrightarrow> v \<in> set S)"
proof (intro conjI allI impI)
  show "(\<exists>S. fst (find_minimum_dominating_set str solver G) = Inr S) \<longleftrightarrow>
      pulp_names_distinct str G"
    by (rule returns_iff_names_distinct[OF assms(1)])
next
  fix S assume "fst (find_minimum_dominating_set str solver G) = Inr S"
  from returned_list_optimal[OF assms(1) this] obtain a
    where a: "optimal (mds_problem G) a" and S: "S = filter (\<lambda>v. a v = 1) (nodes G)"
    by blast
  from a assms(3,4) have "a v = 0 \<or> a v = 1" and "1 \<le> a v"
    by (auto simp: optimal_def feasible_mds_iff set_lp_vars_mds)
  then have "a v = 1" by auto
  with assms(3) show "v \<in> set S"
    by (simp add: S)
qed

theorem isolated_vertex_selected_witness:
  "exact_solver (exhaustive_solver :: string solver) \<and> graph_inv edge_and_isolated \<and>
   ''C'' \<in> set (nodes edge_and_isolated) \<and>
   nbrs edge_and_isolated ''C'' = [] \<and>
   pulp_names_distinct id edge_and_isolated \<and>
   (\<exists>S. fst (find_minimum_dominating_set id exhaustive_solver edge_and_isolated) = Inr S \<and>
        ''C'' \<in> set S)"
proof -
  have n: "''C'' \<in> set (nodes edge_and_isolated)"
    by (simp add: nodes_def edge_and_isolated_def)
  have i: "nbrs edge_and_isolated ''C'' = []"
    by (simp add: nbrs_def edge_and_isolated_def)
  from isolated_vertex_selected[OF exhaustive_solver_exact graph_inv_edge_and_isolated n i, of id]
    exhaustive_solver_exact[where ?'a = string] graph_inv_edge_and_isolated n i
    names_edge_and_isolated
  show ?thesis by blast
qed

text \<open>
  C9: the graph that \<open>find_minimum_dominating_set\<close> leaves behind is the graph it was
  given, whether the call returns or raises: nodes, edges and weights are as before the
  call.
\<close>

theorem graph_unchanged: "snd (find_minimum_dominating_set str solver G) = G"
  by (simp add: find_minimum_dominating_set_eq)

text \<open>
  C10: with an exact solver, on a graph with at least one vertex every list that the
  call returns is not empty, each of its members is a vertex of the graph, and none
  appears twice. The call returns a list exactly when the names that PuLP gives the nodes
  are distinct.
\<close>

theorem returned_list_nonempty_distinct:
  assumes "exact_solver solver" and "graph_inv G" and "nodes G \<noteq> []"
  shows "((\<exists>S. fst (find_minimum_dominating_set str solver G) = Inr S) \<longleftrightarrow>
            pulp_names_distinct str G) \<and>
         (\<forall>S. fst (find_minimum_dominating_set str solver G) = Inr S \<longrightarrow>
            S \<noteq> [] \<and> set S \<subseteq> set (nodes G) \<and> distinct S)"
proof (intro conjI allI impI)
  show "(\<exists>S. fst (find_minimum_dominating_set str solver G) = Inr S) \<longleftrightarrow>
      pulp_names_distinct str G"
    by (rule returns_iff_names_distinct[OF assms(1)])
next
  fix S assume "fst (find_minimum_dominating_set str solver G) = Inr S"
  from returned_list_optimal[OF assms(1) this] obtain a
    where a: "optimal (mds_problem G) a" and S: "S = filter (\<lambda>v. a v = 1) (nodes G)"
    by blast
  from assms(3) obtain v where v: "v \<in> set (nodes G)"
    by (cases "nodes G") auto
  have "dominates G (set S)"
    unfolding S by (rule optimal_dominates[OF a assms(2)])
  with v obtain u where "u \<in> set S"
    unfolding dominates_def by blast
  then show "S \<noteq> []"
    by auto
  show "set S \<subseteq> set (nodes G)"
    by (auto simp: S)
  show "distinct S"
    using assms(2) by (simp add: S graph_inv_def)
qed

theorem returned_list_nonempty_distinct_witness:
  "exact_solver (exhaustive_solver :: string solver) \<and> graph_inv path5 \<and>
   nodes path5 \<noteq> [] \<and> pulp_names_distinct id path5 \<and>
   (\<exists>S. fst (find_minimum_dominating_set id exhaustive_solver path5) = Inr S \<and> S \<noteq> [] \<and>
           set S \<subseteq> set (nodes path5) \<and> distinct S)"
proof -
  have n: "nodes path5 \<noteq> []"
    by (simp add: nodes_def path5_def)
  from returned_list_nonempty_distinct[OF exhaustive_solver_exact graph_inv_path5 n, of id]
    exhaustive_solver_exact[where ?'a = string] graph_inv_path5 n names_path5
  show ?thesis by blast
qed

section \<open>Building the graph\<close>

lemma G_add_edge_Some: "G_add_edge (Some u) (Some v) w G = (Inr (), add_edge u v w G)"
  by (simp add: G_add_edge_def add_edge_def Let_def)

lemma nodes_add_node_if_absent: "set (nodes (add_node_if_absent u G)) = insert u (set (nodes G))"
  by (auto simp: add_node_if_absent_def nodes_def)

lemma nodes_set_edge: "nodes (set_edge u v w G) = nodes G"
proof -
  have "map fst (AList.map_entry u f al) = map fst al" for f :: "('a \<times> 'b) list \<Rightarrow> ('a \<times> 'b) list" and al
    by (induction al) auto
  then show ?thesis by (simp add: nodes_def set_edge_def)
qed

lemma nodes_add_edge: "set (nodes (add_edge u v w G)) = insert u (insert v (set (nodes G)))"
  by (auto simp: add_edge_def nodes_set_edge nodes_add_node_if_absent)

lemma add_node_if_absent_present: "u \<in> set (nodes G) \<Longrightarrow> add_node_if_absent u G = G"
  by (simp add: add_node_if_absent_def)

lemma map_entry_twice: "AList.map_entry k f (AList.map_entry k g al) = AList.map_entry k (f \<circ> g) al"
  by (induction al) auto

lemma map_entry_commute:
  "k \<noteq> k' \<Longrightarrow> AList.map_entry k f (AList.map_entry k' g al) = AList.map_entry k' g (AList.map_entry k f al)"
  by (induction al) auto

lemma update_comp_idem: "AList.update k v \<circ> AList.update k v = AList.update k v"
  by (rule ext) simp

lemma set_edge_idem: "set_edge u v w (set_edge u v w G) = set_edge u v w G"
  by (simp add: set_edge_def map_entry_twice update_comp_idem)

lemma update_four:
  "AList.update k v \<circ> (AList.update k v \<circ> (AList.update k v \<circ> AList.update k v)) = AList.update k v \<circ> AList.update k v"
  by (rule ext) simp

lemma set_edge_pair_idem:
  "set_edge v u w (set_edge u v w (set_edge v u w (set_edge u v w G))) =
   set_edge v u w (set_edge u v w G)"
proof (cases "u = v")
  case True
  then show ?thesis
    by (simp add: set_edge_def map_entry_twice update_four)
next
  case False
  then have "set_edge u v w (set_edge v u w H) = set_edge v u w (set_edge u v w H)" for H :: "('a, 'b) graph"
    by (simp add: set_edge_def map_entry_commute)
  then show ?thesis
    by (simp add: set_edge_idem)
qed

lemma add_edge_idem: "add_edge u v w (add_edge u v w G) = add_edge u v w G"
proof -
  let ?H = "add_edge u v w G"
  have "add_node_if_absent v (add_node_if_absent u ?H) = ?H"
    by (simp add: add_node_if_absent_present nodes_add_edge)
  then have "add_edge u v w ?H = set_edge v u w (set_edge u v w ?H)"
    by (simp add: add_edge_def)
  also have "\<dots> = ?H"
    unfolding add_edge_def by (rule set_edge_pair_idem)
  finally show ?thesis .
qed

lemma nbrs_set_edge:
  "set (nbrs (set_edge u v w G) n) =
     (if n = u \<and> u \<in> set (nodes G) then insert v (set (nbrs G n)) else set (nbrs G n))"
proof -
  have keys: "fst ` set (AList.update v w al) = insert v (fst ` set al)" for al :: "('a \<times> 'b) list"
    by (simp add: dom_update)
  have dom: "k \<in> fst ` set al" if "map_of al k = Some x" for al :: "('a \<times> ('a \<times> 'b) list) list" and k x
    using map_of_SomeD[OF that] by force
  show ?thesis
    by (auto simp: nbrs_def set_edge_def map_of_map_entry nodes_def keys map_of_eq_None_iff
        dest: dom sym split: option.splits)
qed

lemma nbrs_add_edge:
  "v \<in> set (nbrs (add_edge u v w G) u) \<and> u \<in> set (nbrs (add_edge u v w G) v)"
  by (simp add: add_edge_def nbrs_set_edge nodes_set_edge nodes_add_node_if_absent)

lemma read_rows_append:
  "read_rows float (xs @ ys) G =
     (case read_rows float xs G of Inl e \<Rightarrow> Inl e | Inr G' \<Rightarrow> read_rows float ys G')"
  by (induction xs arbitrary: G) (auto split: sum.splits prod.splits)

text \<open>
  C4, as the code has it: a row whose three fields are read never fails at \<open>add_edge\<close>,
  whether its two ends differ or not. After it each end is a neighbour of the other (a
  vertex of a self-loop is its own neighbour), and the same row a second time leaves the
  graph as it is.
\<close>

theorem self_loop_accepted_edge_idempotent:
  assumes "read_graph_from_csv float rows = Inr G"
    and "row_args float r = Inr (Some u, Some v, w)"
  shows "\<exists>G'. read_graph_from_csv float (rows @ [r]) = Inr G' \<and>
           v \<in> set (nbrs G' u) \<and> u \<in> set (nbrs G' v) \<and>
           read_graph_from_csv float (rows @ [r, r]) = Inr G'"
  using assms
  by (simp add: read_graph_from_csv_def read_rows_append G_add_edge_Some add_edge_idem nbrs_add_edge)

text \<open>
  The input with the single self-loop entry \<open>(A, A, 1)\<close> is read without an error, into
  the graph where \<open>A\<close> is its own neighbour.
\<close>

theorem self_loop_rejected_counterexample:
  "read_graph_from_csv float_digits [csv_row ''A'' ''A'' ''1''] = Inr \<lparr>adj = [(''A'', [(''A'', 1)])]\<rparr>"
  by (simp add: read_graph_from_csv_def csv_row_def float_digits_def row_args_def G_add_edge_def
      empty_graph_def add_node_if_absent_def set_edge_def nodes_def)

theorem self_loop_accepted_edge_idempotent_witness:
  "read_graph_from_csv float_digits [csv_row ''A'' ''B'' ''1''] = Inr \<lparr>adj = [(''A'', [(''B'', 1)]), (''B'', [(''A'', 1)])]\<rparr> \<and>
   row_args float_digits (csv_row ''B'' ''B'' ''2'') = Inr (Some ''B'', Some ''B'', 2) \<and>
   (\<exists>G'. read_graph_from_csv float_digits ([csv_row ''A'' ''B'' ''1''] @ [csv_row ''B'' ''B'' ''2'']) = Inr G' \<and>
           ''B'' \<in> set (nbrs G' ''B'') \<and> ''B'' \<in> set (nbrs G' ''B'') \<and>
           read_graph_from_csv float_digits ([csv_row ''A'' ''B'' ''1''] @ [csv_row ''B'' ''B'' ''2'', csv_row ''B'' ''B'' ''2'']) = Inr G')"
proof -
  have g: "read_graph_from_csv float_digits [csv_row ''A'' ''B'' ''1''] = Inr \<lparr>adj = [(''A'', [(''B'', 1)]), (''B'', [(''A'', 1)])]\<rparr>"
    by (simp add: read_graph_from_csv_def csv_row_def float_digits_def row_args_def G_add_edge_def
      empty_graph_def add_node_if_absent_def set_edge_def nodes_def)
  have r: "row_args float_digits (csv_row ''B'' ''B'' ''2'') = Inr (Some ''B'', Some ''B'', 2)"
    by (simp add: csv_row_def float_digits_def row_args_def)
  from self_loop_accepted_edge_idempotent[OF g r] g r show ?thesis by simp
qed

section \<open>Paths: the size of the answer\<close>

lemma path_nbrs_iff:
  assumes "is_path G vs" and "i < length vs"
  shows "w \<in> set (nbrs G (vs ! i)) \<longleftrightarrow>
         (0 < i \<and> w = vs ! (i - 1)) \<or> (Suc i < length vs \<and> w = vs ! Suc i)"
  using assms by (auto simp: is_path_def path_neighbours_def)

lemma path_lower_bound:
  assumes "is_path G vs" and "dominates G (set S)"
  shows "length vs \<le> 3 * card (set S)"
proof -
  let ?n = "length vs"
  let ?I = "{j. j < ?n \<and> vs ! j \<in> set S}"
  have finI: "finite ?I" by simp
  have cover: "{0..<?n} \<subseteq> (\<Union>j \<in> ?I. {j - 1, j, Suc j})"
  proof
    fix i assume "i \<in> {0..<?n}"
    then have i: "i < ?n" by simp
    then have "vs ! i \<in> set (nodes G)"
      using assms(1) by (auto simp: is_path_def)
    with assms(2) consider "vs ! i \<in> set S" | w where "w \<in> set (nbrs G (vs ! i))" "w \<in> set S"
      unfolding dominates_def by blast
    then show "i \<in> (\<Union>j \<in> ?I. {j - 1, j, Suc j})"
    proof cases
      case 1
      with i show ?thesis by blast
    next
      case 2
      from 2(1) path_nbrs_iff[OF assms(1) i]
      consider "0 < i" "w = vs ! (i - 1)" | "Suc i < ?n" "w = vs ! Suc i"
        by blast
      then show ?thesis
      proof cases
        case 1
        with 2(2) i have "i - 1 \<in> ?I" "i = Suc (i - 1)" by auto
        then show ?thesis by blast
      next
        case 2
        with \<open>w \<in> set S\<close> have "Suc i \<in> ?I" "i = Suc i - 1" by auto
        then show ?thesis by blast
      qed
    qed
  qed
  have "?n = card {0..<?n}" by simp
  also have "\<dots> \<le> card (\<Union>j \<in> ?I. {j - 1, j, Suc j})"
    by (rule card_mono) (use cover in auto)
  also have "\<dots> \<le> (\<Sum>j \<in> ?I. card {j - 1, j, Suc j})"
    by (rule card_UN_le) simp
  also have "\<dots> \<le> (\<Sum>j \<in> ?I. 3)"
    by (rule sum_mono) (simp add: card_insert_if)
  also have "\<dots> = 3 * card ?I" by simp
  also have "card ?I \<le> card (set S)"
  proof -
    have "inj_on (\<lambda>j. vs ! j) ?I"
      using assms(1) by (auto simp: inj_on_def is_path_def nth_eq_iff_index_eq)
    then have "card ?I = card ((\<lambda>j. vs ! j) ` ?I)"
      by (simp add: card_image)
    also have "\<dots> \<le> card (set S)"
      by (rule card_mono) auto
    finally show ?thesis .
  qed
  finally show ?thesis by simp
qed

lemma path_dominators_card: "card (path_dominators vs) \<le> (length vs + 2) div 3"
  unfolding path_dominators_def using card_image_le[of "{0..<(length vs + 2) div 3}"] by force

lemma path_dominators_dominate:
  assumes "is_path G vs"
  shows "dominates G (path_dominators vs)"
  unfolding dominates_def
proof
  fix v assume "v \<in> set (nodes G)"
  with assms have "v \<in> set vs"
    by (simp add: is_path_def)
  then obtain i where i: "i < length vs" "v = vs ! i"
    by (auto simp: in_set_conv_nth)
  let ?n = "length vs"
  let ?k = "i div 3"
  let ?d = "min (3 * ?k + 1) (?n - 1)"
  have k: "?k \<in> {0..<(?n + 2) div 3}"
    using i(1) by auto
  then have d: "vs ! ?d \<in> path_dominators vs"
    unfolding path_dominators_def by (rule imageI)
  have "?d = i \<or> (0 < i \<and> ?d = i - 1) \<or> (Suc i < ?n \<and> ?d = Suc i)"
    using i(1) by (auto simp: min_def)
  then show "v \<in> path_dominators vs \<or> (\<exists>w \<in> set (nbrs G v). w \<in> path_dominators vs)"
    using d path_nbrs_iff[OF assms i(1)] i(2) by metis
qed

lemma ceiling_third: "\<lceil>real n / 3\<rceil> = int ((n + 2) div 3)"
proof -
  have "\<lceil>real n / 3\<rceil> = \<lceil>real_of_int (int n) / real_of_int 3\<rceil>" by simp
  also have "\<dots> = - ((- int n) div 3)"
    by (simp only: ceiling_divide_eq_div)
  also have "\<dots> = int ((n + 2) div 3)"
    by (simp add: zdiv_int)
  finally show ?thesis .
qed

text \<open>
  C7: with an exact solver, on a path of \<open>n\<close> vertices every list that the call returns
  has \<open>\<lceil>n / 3\<rceil>\<close> members; for the path \<open>A-B-C-D-E\<close> that is 2. The call returns a
  list exactly when the names that PuLP gives the nodes are distinct.
\<close>

theorem path_graph_size:
  assumes "exact_solver solver" and "graph_inv G" and "is_path G vs"
  shows "((\<exists>S. fst (find_minimum_dominating_set str solver G) = Inr S) \<longleftrightarrow>
            pulp_names_distinct str G) \<and>
         (\<forall>S. fst (find_minimum_dominating_set str solver G) = Inr S \<longrightarrow>
            int (length S) = \<lceil>real (length vs) / 3\<rceil>)"
proof (intro conjI allI impI)
  show "(\<exists>S. fst (find_minimum_dominating_set str solver G) = Inr S) \<longleftrightarrow>
      pulp_names_distinct str G"
    by (rule returns_iff_names_distinct[OF assms(1)])
next
  fix S assume "fst (find_minimum_dominating_set str solver G) = Inr S"
  from returned_list_optimal[OF assms(1) this] obtain a
    where a: "optimal (mds_problem G) a" and S: "S = filter (\<lambda>v. a v = 1) (nodes G)"
    by blast
  have dom: "dominates G (set S)"
    unfolding S by (rule optimal_dominates[OF a assms(2)])
  have "distinct S"
    using assms(2) by (simp add: S graph_inv_def)
  then have "card (set S) = length S"
    by (rule distinct_card)
  with path_lower_bound[OF assms(3) dom] have lower: "length vs \<le> 3 * length S"
    by simp
  have "finite (path_dominators vs)"
    by (simp add: path_dominators_def)
  from optimal_le_dominating[OF a assms(2) this path_dominators_dominate[OF assms(3)]]
    path_dominators_card[of vs]
  have upper: "length S \<le> (length vs + 2) div 3"
    by (simp add: S)
  from lower upper have "length S = (length vs + 2) div 3"
    by presburger
  then show "int (length S) = \<lceil>real (length vs) / 3\<rceil>"
    by (simp add: ceiling_third)
qed

lemma is_path_path5: "is_path path5 [''A'', ''B'', ''C'', ''D'', ''E'']"
  by code_simp

theorem path_graph_size_witness:
  "exact_solver (exhaustive_solver :: string solver) \<and> graph_inv path5 \<and>
   is_path path5 [''A'', ''B'', ''C'', ''D'', ''E''] \<and>
   length [''A'', ''B'', ''C'', ''D'', ''E''] = 5 \<and> pulp_names_distinct id path5 \<and>
   (\<exists>S. fst (find_minimum_dominating_set id exhaustive_solver path5) = Inr S \<and>
        int (length S) = 2)"
proof -
  have c: "\<lceil>real (length [''A'', ''B'', ''C'', ''D'', ''E'']) / 3\<rceil> = 2"
    by (simp add: ceiling_third)
  have l: "length [''A'', ''B'', ''C'', ''D'', ''E''] = 5"
    by simp
  from path_graph_size[OF exhaustive_solver_exact graph_inv_path5 is_path_path5, of id,
      unfolded c]
    exhaustive_solver_exact[where ?'a = string] graph_inv_path5 is_path_path5 names_path5 l
  show ?thesis by blast
qed

section \<open>The answer and the greedy upper bound\<close>

lemma greedy_choice_mem: "greedy_choice G U v0 vs \<in> set (v0 # vs)"
  unfolding greedy_choice_def by (induction vs arbitrary: v0) auto

lemma greedy_choice_start: "coverage G U v0 \<le> coverage G U (greedy_choice G U v0 vs)"
  unfolding greedy_choice_def
proof (induction vs arbitrary: v0)
  case Nil
  then show ?case by simp
next
  case (Cons x xs)
  let ?b = "if coverage G U v0 < coverage G U x then x else v0"
  have "coverage G U v0 \<le> coverage G U ?b" by simp
  also have "\<dots> \<le> coverage G U (fold (\<lambda>v best. if coverage G U best < coverage G U v then v else best) xs ?b)"
    by (rule Cons.IH)
  finally show ?case by simp
qed

lemma greedy_choice_max:
  "x \<in> set (v0 # vs) \<Longrightarrow> coverage G U x \<le> coverage G U (greedy_choice G U v0 vs)"
proof (induction vs arbitrary: v0)
  case Nil
  then show ?case by (simp add: greedy_choice_def)
next
  case (Cons y ys)
  let ?b = "if coverage G U v0 < coverage G U y then y else v0"
  have step: "greedy_choice G U v0 (y # ys) = greedy_choice G U ?b ys"
    by (simp add: greedy_choice_def)
  show ?case
  proof (cases "x \<in> set ys")
    case True
    then show ?thesis using Cons.IH[of ?b] by (simp add: step)
  next
    case False
    with Cons.prems have "x = v0 \<or> x = y" by auto
    then have "coverage G U x \<le> coverage G U ?b" by auto
    also have "\<dots> \<le> coverage G U (greedy_choice G U ?b ys)"
      by (rule greedy_choice_start)
    finally show ?thesis by (simp add: step)
  qed
qed

lemma coverage_self: "u \<in> set U \<Longrightarrow> 1 \<le> coverage G U u"
proof -
  assume "u \<in> set U"
  then have "filter (\<lambda>x. x \<in> set (closedNeighborhood G u)) U \<noteq> []"
    by (auto simp: filter_empty_conv closedNeighborhood_def)
  then show ?thesis
    by (cases "filter (\<lambda>x. x \<in> set (closedNeighborhood G u)) U") (simp_all add: coverage_def)
qed

lemma greedy_rounds_cover:
  "length U \<le> k \<Longrightarrow> set U \<subseteq> set vs \<Longrightarrow> u \<in> set U \<Longrightarrow>
   \<exists>d \<in> set (greedy_rounds k G vs U). d \<in> set vs \<and> u \<in> set (closedNeighborhood G d)"
proof (induction k arbitrary: U)
  case 0
  then show ?case by simp
next
  case (Suc k)
  from Suc.prems(2,3) obtain v0 vs' where ns: "vs = v0 # vs'"
    by (cases vs) auto
  from Suc.prems(3) obtain u0 us where U: "U = u0 # us"
    by (cases U) auto
  let ?v = "greedy_choice G U v0 vs'"
  let ?U' = "filter (\<lambda>x. x \<notin> set (closedNeighborhood G ?v)) U"
  have rounds: "greedy_rounds (Suc k) G vs U = ?v # greedy_rounds k G vs ?U'"
    by (simp add: ns U Let_def)
  have vmem: "?v \<in> set vs"
    using greedy_choice_mem[of G U v0 vs'] by (simp only: ns)
  have "u \<in> set (v0 # vs')"
    using Suc.prems(2,3) ns by auto
  from greedy_choice_max[OF this, of G U] coverage_self[OF Suc.prems(3), of G]
  have "1 \<le> coverage G U ?v" by simp
  moreover have "length ?U' + coverage G U ?v = length U"
    using sum_length_filter_compl[of "\<lambda>x. x \<in> set (closedNeighborhood G ?v)" U]
    by (simp add: coverage_def)
  ultimately have len: "length ?U' \<le> k"
    using Suc.prems(1) by simp
  show ?case
  proof (cases "u \<in> set (closedNeighborhood G ?v)")
    case True
    with vmem show ?thesis by (simp only: rounds) auto
  next
    case False
    with Suc.prems(3) have "u \<in> set ?U'" by simp
    moreover have "set ?U' \<subseteq> set vs"
      using Suc.prems(2) by auto
    ultimately obtain d where "d \<in> set (greedy_rounds k G vs ?U')" "d \<in> set vs"
      "u \<in> set (closedNeighborhood G d)"
      using Suc.IH[OF len] by blast
    then show ?thesis by (simp only: rounds) auto
  qed
qed

lemma greedy_upper_bound_dominates:
  assumes "undirected G"
  shows "dominates G (set (greedy_upper_bound G))"
  unfolding dominates_def
proof
  fix v assume v: "v \<in> set (nodes G)"
  let ?vs = "sort (nodes G)"
  from greedy_rounds_cover[of ?vs "length ?vs" ?vs v G] v
  obtain d where d: "d \<in> set (greedy_upper_bound G)" "d \<in> set (nodes G)"
    "v \<in> set (closedNeighborhood G d)"
    by (auto simp: greedy_upper_bound_def Let_def)
  from d(3) consider "v = d" | "v \<in> set (nbrs G d)"
    by (auto simp: closedNeighborhood_def)
  then show "v \<in> set (greedy_upper_bound G) \<or> (\<exists>w \<in> set (nbrs G v). w \<in> set (greedy_upper_bound G))"
  proof cases
    case 1
    with d(1) show ?thesis by simp
  next
    case 2
    with assms d(2) have "d \<in> set (nbrs G v)"
      unfolding undirected_def by blast
    with d(1) show ?thesis by blast
  qed
qed

text \<open>
  C8, as the code has it: the function takes the graph and nothing else, so a call that
  passes the budget \<open>maxNodes\<close> raises \<open>TypeError\<close>, whatever the graph and the budget.
  Called with the graph alone and an exact solver, it returns a list exactly when the
  names that PuLP gives the nodes are distinct, and every list it returns is the exact
  answer, not a greedy one: a dominating set of the least size there is, never longer
  than the greedy upper bound.
\<close>

theorem budget_rejected_answer_exact:
  assumes "exact_solver solver" and "graph_inv G" and "undirected G"
  shows "fst (call_find_minimum_dominating_set str solver G (Some n)) = Inl TypeError \<and>
         ((\<exists>S. fst (call_find_minimum_dominating_set str solver G None) = Inr S) \<longleftrightarrow>
            pulp_names_distinct str G) \<and>
         (\<forall>S. fst (call_find_minimum_dominating_set str solver G None) = Inr S \<longrightarrow>
            dominates G (set S) \<and> length S = brute_force_minimum G \<and>
            length S \<le> length (greedy_upper_bound G))"
proof (intro conjI allI impI)
  show "fst (call_find_minimum_dominating_set str solver G (Some n)) = Inl TypeError"
    by (simp add: call_find_minimum_dominating_set_def)
  show "(\<exists>S. fst (call_find_minimum_dominating_set str solver G None) = Inr S) \<longleftrightarrow>
      pulp_names_distinct str G"
    using returns_iff_names_distinct[OF assms(1), of str G]
    by (simp add: call_find_minimum_dominating_set_def)
next
  fix S assume "fst (call_find_minimum_dominating_set str solver G None) = Inr S"
  then have "fst (find_minimum_dominating_set str solver G) = Inr S"
    by (simp add: call_find_minimum_dominating_set_def)
  from returned_list_optimal[OF assms(1) this] obtain a
    where a: "optimal (mds_problem G) a" and S: "S = filter (\<lambda>v. a v = 1) (nodes G)"
    by blast
  show "dominates G (set S)"
    unfolding S by (rule optimal_dominates[OF a assms(2)])
  show "length S = brute_force_minimum G"
    unfolding S by (rule optimal_brute_force[OF a assms(2)])
  have "length S \<le> card (set (greedy_upper_bound G))"
    unfolding S
    by (rule optimal_le_dominating[OF a assms(2) _ greedy_upper_bound_dominates[OF assms(3)]])
      simp
  also have "\<dots> \<le> length (greedy_upper_bound G)"
    by (rule card_length)
  finally show "length S \<le> length (greedy_upper_bound G)" .
qed

section \<open>Graphs read from rows keep the invariants\<close>

lemma map_of_Some_key: "map_of al k = Some x \<Longrightarrow> k \<in> fst ` set al"
  using map_of_SomeD[of al k x] by force

lemma distinct_add_node_if_absent:
  "distinct (nodes G) \<Longrightarrow> distinct (nodes (add_node_if_absent u G))"
  by (auto simp: add_node_if_absent_def nodes_def)

lemma nodes_add_edge_distinct: "distinct (nodes G) \<Longrightarrow> distinct (nodes (add_edge u v w G))"
  by (simp add: add_edge_def nodes_set_edge distinct_add_node_if_absent)

lemma nbrs_outside: "n \<notin> set (nodes G) \<Longrightarrow> nbrs G n = []"
  by (auto simp: nbrs_def nodes_def dest: map_of_Some_key split: option.splits)

lemma nbrs_add_node_if_absent: "nbrs (add_node_if_absent u G) n = nbrs G n"
  by (auto simp: add_node_if_absent_def nbrs_def nodes_def dest: map_of_Some_key
      split: option.splits if_splits)

lemma nbrs_add_edge_set:
  "set (nbrs (add_edge u v w G) n) =
     set (nbrs G n) \<union> (if n = u then {v} else {}) \<union> (if n = v then {u} else {})"
  by (auto simp: add_edge_def nbrs_set_edge nodes_set_edge nodes_add_node_if_absent
      nbrs_add_node_if_absent)

lemma graph_inv_empty: "graph_inv empty_graph"
  by (simp add: graph_inv_def empty_graph_def nodes_def)

lemma undirected_empty: "undirected empty_graph"
  by (simp add: undirected_def empty_graph_def nodes_def)

lemma graph_inv_add_edge:
  assumes "graph_inv G"
  shows "graph_inv (add_edge u v w G)"
  unfolding graph_inv_def
proof (intro conjI ballI)
  show "distinct (nodes (add_edge u v w G))"
    using assms by (simp add: graph_inv_def nodes_add_edge_distinct)
next
  fix n assume "n \<in> set (nodes (add_edge u v w G))"
  have "set (nbrs G n) \<subseteq> set (nodes G)"
  proof (cases "n \<in> set (nodes G)")
    case True
    with assms show ?thesis by (simp add: graph_inv_def)
  next
    case False
    then show ?thesis by (simp add: nbrs_outside)
  qed
  then show "set (nbrs (add_edge u v w G) n) \<subseteq> set (nodes (add_edge u v w G))"
    by (auto simp: nbrs_add_edge_set nodes_add_edge)
qed

lemma undirected_add_edge:
  assumes "graph_inv G" and "undirected G"
  shows "undirected (add_edge u v w G)"
  unfolding undirected_def
proof (intro ballI)
  fix a b
  assume a: "a \<in> set (nodes (add_edge u v w G))" and b: "b \<in> set (nbrs (add_edge u v w G) a)"
  from b consider "b \<in> set (nbrs G a)" | "a = u" "b = v" | "a = v" "b = u"
    by (auto simp: nbrs_add_edge_set split: if_splits)
  then show "a \<in> set (nbrs (add_edge u v w G) b)"
  proof cases
    case 1
    then have "a \<in> set (nodes G)"
      using nbrs_outside[of a G] by force
    with 1 assms(2) have "a \<in> set (nbrs G b)"
      unfolding undirected_def by blast
    then show ?thesis by (simp add: nbrs_add_edge_set)
  qed (simp_all add: nbrs_add_edge_set)
qed

lemma read_rows_inv:
  "read_rows float rows G = Inr G' \<Longrightarrow> graph_inv G \<Longrightarrow> undirected G \<Longrightarrow>
   graph_inv G' \<and> undirected G'"
proof (induction rows arbitrary: G)
  case Nil
  then show ?case by simp
next
  case (Cons r rows)
  from Cons.prems(1) obtain u v w where
    step: "read_rows float rows (add_edge u v w G) = Inr G'"
    by (auto simp: G_add_edge_def add_edge_def Let_def split: sum.splits option.splits)
  show ?case
    by (rule Cons.IH[OF step graph_inv_add_edge[OF Cons.prems(2)]
          undirected_add_edge[OF Cons.prems(2,3)]])
qed

lemma read_graph_from_csv_inv:
  "read_graph_from_csv float rows = Inr G \<Longrightarrow> graph_inv G \<and> undirected G"
  unfolding read_graph_from_csv_def
  by (rule read_rows_inv[OF _ graph_inv_empty undirected_empty])

lemma read_spider:
  "read_graph_from_csv float_digits
     [csv_row ''A'' ''B'' ''1'', csv_row ''A'' ''C'' ''1'', csv_row ''B'' ''D'' ''1'',
      csv_row ''C'' ''E'' ''1''] = Inr spider"
  by (simp add: read_graph_from_csv_def csv_row_def float_digits_def row_args_def G_add_edge_def
      empty_graph_def add_node_if_absent_def set_edge_def nodes_def spider_def)

lemma read_path5:
  "read_graph_from_csv float_digits
     [csv_row ''A'' ''B'' ''1'', csv_row ''B'' ''C'' ''1'', csv_row ''C'' ''D'' ''1'',
      csv_row ''D'' ''E'' ''1''] = Inr path5"
  by (simp add: read_graph_from_csv_def csv_row_def float_digits_def row_args_def G_add_edge_def
      empty_graph_def add_node_if_absent_def set_edge_def nodes_def path5_def)

lemma inv_spider: "graph_inv spider \<and> undirected spider"
  by (rule read_graph_from_csv_inv[OF read_spider])

lemma names_spider: "pulp_names_distinct id spider"
  by (simp add: pulp_names_distinct_def constraint_name_def sanitize_def spider_def nodes_def)

lemma greedy_spider: "greedy_upper_bound spider = [''A'', ''B'', ''C'']"
  by code_simp

lemma brute_force_spider: "brute_force_minimum spider = 2"
  by code_simp

text \<open>
  On the tree \<open>spider\<close> the call with the budget \<open>maxNodes = 0\<close> raises \<open>TypeError\<close> and
  returns nothing. The call without a budget returns two vertices, the minimum, where
  the greedy upper bound has three.
\<close>

theorem budget_zero_counterexample:
  "fst (call_find_minimum_dominating_set id exhaustive_solver spider (Some 0)) = Inl TypeError \<and>
   (\<exists>S. fst (call_find_minimum_dominating_set id exhaustive_solver spider None) = Inr S \<and>
        length S = 2) \<and>
   length (greedy_upper_bound spider) = 3"
proof -
  have "fst (call_find_minimum_dominating_set id exhaustive_solver spider (Some 0)) = Inl TypeError"
    by (simp add: call_find_minimum_dominating_set_def)
  moreover obtain S where S: "fst (find_minimum_dominating_set id exhaustive_solver spider) = Inr S"
    using returns_iff_names_distinct[OF exhaustive_solver_exact, of id spider] names_spider
    by blast
  from returned_list_optimal[OF exhaustive_solver_exact S] obtain a
    where "optimal (mds_problem spider) a" "S = filter (\<lambda>v. a v = 1) (nodes spider)"
    by blast
  then have "length S = 2"
    using optimal_brute_force[OF _ conjunct1[OF inv_spider], of a] brute_force_spider
    by simp
  with S have "\<exists>S. fst (call_find_minimum_dominating_set id exhaustive_solver spider None) = Inr S \<and>
        length S = 2"
    by (simp add: call_find_minimum_dominating_set_def)
  ultimately show ?thesis
    by (simp add: greedy_spider)
qed

theorem budget_rejected_answer_exact_witness:
  "exact_solver (exhaustive_solver :: string solver) \<and> graph_inv spider \<and> undirected spider \<and>
   pulp_names_distinct id spider \<and>
   fst (call_find_minimum_dominating_set id exhaustive_solver spider (Some 0)) = Inl TypeError \<and>
   (\<exists>S. fst (call_find_minimum_dominating_set id exhaustive_solver spider None) = Inr S \<and>
        dominates spider (set S) \<and> length S = brute_force_minimum spider \<and>
        length S \<le> length (greedy_upper_bound spider))"
  using budget_rejected_answer_exact[OF exhaustive_solver_exact conjunct1[OF inv_spider]
      conjunct2[OF inv_spider], of id 0]
    exhaustive_solver_exact[where ?'a = string] inv_spider names_spider
  by blast

section \<open>Rows that differ only in their weights\<close>

text \<open>
  Two inputs whose rows have the same ends, whatever their weights, are read into graphs
  that are the same up to the weights.
\<close>

lemma unweighted_add_node_if_absent:
  "unweighted (add_node_if_absent u G) =
     (if u \<in> fst ` set (unweighted G) then unweighted G else unweighted G @ [(u, [])])"
  by (auto simp: add_node_if_absent_def unweighted_def nodes_def image_iff case_prod_unfold)

lemma unweighted_set_edge:
  "unweighted (set_edge u v w G) = AList.map_entry u (insert_key v) (unweighted G)"
proof -
  have "map (\<lambda>(u, nb). (u, map fst nb)) (AList.map_entry u (AList.update v w) al) =
        AList.map_entry u (insert_key v) (map (\<lambda>(u, nb). (u, map fst nb)) al)"
    for al :: "('a \<times> ('a \<times> 'b) list) list"
  proof (induction al)
    case Nil
    then show ?case by simp
  next
    case (Cons p ps)
    have "map fst (AList.update v w (snd p)) = insert_key v (map fst (snd p))"
      by (simp add: update_keys insert_key_def)
    with Cons show ?case
      by (simp add: case_prod_unfold)
  qed
  then show ?thesis
    by (simp add: unweighted_def set_edge_def)
qed

lemma unweighted_add_edge:
  "unweighted G1 = unweighted G2 \<Longrightarrow>
   unweighted (add_edge u v w1 G1) = unweighted (add_edge u v w2 G2)"
  by (simp add: add_edge_def unweighted_set_edge unweighted_add_node_if_absent)

lemma unweighted_read_rows:
  assumes "list_all2 (\<lambda>r1 r2. \<exists>s t w1 w2. row_args float1 r1 = Inr (s, t, w1) \<and>
             row_args float2 r2 = Inr (s, t, w2)) rows1 rows2"
    and "unweighted G1 = unweighted G2"
    and "read_rows float1 rows1 G1 = Inr H1"
  shows "\<exists>H2. read_rows float2 rows2 G2 = Inr H2 \<and> unweighted H1 = unweighted H2"
  using assms
proof (induction rows1 rows2 arbitrary: G1 G2 rule: list_all2_induct)
  case Nil
  then show ?case by simp
next
  case (Cons r1 rows1 r2 rows2)
  from Cons.hyps(1) obtain s t w1 w2 where
    r: "row_args float1 r1 = Inr (s, t, w1)" "row_args float2 r2 = Inr (s, t, w2)"
    by blast
  from Cons.prems(2) r(1) obtain u v where uv: "s = Some u" "t = Some v"
    and step: "read_rows float1 rows1 (add_edge u v w1 G1) = Inr H1"
    by (auto simp: G_add_edge_def add_edge_def Let_def split: option.splits)
  from Cons.IH[OF unweighted_add_edge[OF Cons.prems(1)] step, of w2]
  show ?case
    by (simp add: r(2) uv G_add_edge_Some)
qed

end
